theory Spec2Isabelle
  imports Complex_Main
begin

section \<open>Day 8: shortest-distance clustering (src/day8/solution.py)\<close>

text \<open>
  The solver keeps a union-find structure over the indices of a list of 3-D points,
  generates every pairwise distance, and unions the points in the order of the pair list.
  Python integers are unbounded, so they are \<open>int\<close>; Python lists are HOL lists that are
  read and written through \<open>py_get\<close> and \<open>py_set\<close>, which follow Python's subscript
  rules: an index in \<open>[0, len)\<close> addresses from the front, an index in \<open>[-len, 0)\<close>
  addresses from the back, anything else raises IndexError.

  Every operation returns a value of type \<open>(error + 'a) option\<close>: \<open>Some (Inr v)\<close> is a
  normal return, \<open>Some (Inl e)\<close> is a raised exception, and \<open>None\<close> stands for a call of
  the recursive \<open>find\<close> that never returns (the interpreter's recursion limit is not
  modelled). No caller in the program catches an exception, so a raised exception carries
  no state. The methods \<open>find\<close> and \<open>union\<close> are \<open>find_uf\<close> and \<open>union_uf\<close> here.
\<close>

subsection \<open>Python values\<close>

datatype error = IndexError | ValueError

type_synonym 'a res = "(error + 'a) option"

definition py_get :: "'a list \<Rightarrow> int \<Rightarrow> 'a option" where
  "py_get xs i =
     (if 0 \<le> i \<and> i < int (length xs) then Some (xs ! nat i)
      else if - int (length xs) \<le> i \<and> i < 0 then Some (xs ! nat (i + int (length xs)))
      else None)"

definition py_set :: "'a list \<Rightarrow> int \<Rightarrow> 'a \<Rightarrow> 'a list option" where
  "py_set xs i v =
     (if 0 \<le> i \<and> i < int (length xs) then Some (xs[nat i := v])
      else if - int (length xs) \<le> i \<and> i < 0 then Some (xs[nat (i + int (length xs)) := v])
      else None)"

subsection \<open>class UnionFind\<close>

record uf =
  parent :: "int list"
  rank :: "int list"
  component_count :: int

text \<open>\<open>__init__\<close>: \<open>list(range(size))\<close> and \<open>[0] * size\<close> are empty for a negative size.\<close>

definition init :: "int \<Rightarrow> uf" where
  "init sz = \<lparr> parent = map int [0 ..< nat sz],
               rank = replicate (nat sz) 0,
               component_count = sz \<rparr>"

text \<open>
  \<open>find\<close>: the recursive call runs first and may rewrite the parent list; the assignment
  \<open>self.parent[x] = ...\<close> and the final read \<open>self.parent[x]\<close> act on the list it leaves.
\<close>

partial_function (option) find_uf :: "uf \<Rightarrow> int \<Rightarrow> (uf \<times> int) res" where
  "find_uf s x =
     (case py_get (parent s) x of
        None \<Rightarrow> Some (Inl IndexError)
      | Some p \<Rightarrow>
          if p \<noteq> x then
            Option.bind (find_uf s p) (\<lambda>res.
              case res of
                Inl e \<Rightarrow> Some (Inl e)
              | Inr (s1, r) \<Rightarrow>
                  (case py_set (parent s1) x r of
                     None \<Rightarrow> Some (Inl IndexError)
                   | Some ps \<Rightarrow>
                       (case py_get ps x of
                          None \<Rightarrow> Some (Inl IndexError)
                        | Some v \<Rightarrow> Some (Inr (s1\<lparr>parent := ps\<rparr>, v)))))
          else Some (Inr (s, p)))"

declare find_uf.simps [code]

text \<open>
  \<open>union\<close>: two finds, then the rank comparison. \<open>link\<close> is the \<open>if/elif/else\<close> of
  lines 75 to 81, applied to the two roots; \<open>self.rank[root_x] += 1\<close> is a read followed
  by a write of the same cell.
\<close>

definition link :: "uf \<Rightarrow> int \<Rightarrow> int \<Rightarrow> error + uf" where
  "link s root_x root_y =
     (case (py_get (rank s) root_x, py_get (rank s) root_y) of
        (Some kx, Some ky) \<Rightarrow>
          if kx < ky then
            (case py_set (parent s) root_x root_y of
               None \<Rightarrow> Inl IndexError
             | Some ps \<Rightarrow> Inr (s\<lparr>parent := ps\<rparr>))
          else if kx > ky then
            (case py_set (parent s) root_y root_x of
               None \<Rightarrow> Inl IndexError
             | Some ps \<Rightarrow> Inr (s\<lparr>parent := ps\<rparr>))
          else
            (case py_set (parent s) root_y root_x of
               None \<Rightarrow> Inl IndexError
             | Some ps \<Rightarrow>
                 (case py_set (rank s) root_x (kx + 1) of
                    None \<Rightarrow> Inl IndexError
                  | Some rs \<Rightarrow> Inr (s\<lparr>parent := ps, rank := rs\<rparr>)))
      | _ \<Rightarrow> Inl IndexError)"

definition union_uf :: "uf \<Rightarrow> int \<Rightarrow> int \<Rightarrow> (uf \<times> bool) res" where
  "union_uf s x y =
     Option.bind (find_uf s x) (\<lambda>res1.
       case res1 of
         Inl e \<Rightarrow> Some (Inl e)
       | Inr (s1, root_x) \<Rightarrow>
           Option.bind (find_uf s1 y) (\<lambda>res2.
             case res2 of
               Inl e \<Rightarrow> Some (Inl e)
             | Inr (s2, root_y) \<Rightarrow>
                 if root_x = root_y then Some (Inr (s2, False))
                 else
                   (case link s2 root_x root_y of
                      Inl e \<Rightarrow> Some (Inl e)
                    | Inr s3 \<Rightarrow>
                        Some (Inr (s3\<lparr>component_count := component_count s3 - 1\<rparr>, True)))))"

text \<open>
  \<open>get_component_sizes\<close>: \<open>size_map\<close> is a Python dict, which keeps its keys in the order
  of their first insertion, so it is an association list: \<open>dict_get\<close> is \<open>dict.get\<close> with
  a default, \<open>dict_set\<close> overwrites the value of a present key in place and appends an
  absent one. \<open>range(len(self.parent))\<close> is evaluated once, before the loop.
\<close>

fun dict_get :: "('k \<times> 'v) list \<Rightarrow> 'k \<Rightarrow> 'v \<Rightarrow> 'v" where
  "dict_get [] k d = d"
| "dict_get ((k', v) # m) k d = (if k' = k then v else dict_get m k d)"

fun dict_set :: "('k \<times> 'v) list \<Rightarrow> 'k \<Rightarrow> 'v \<Rightarrow> ('k \<times> 'v) list" where
  "dict_set [] k v = [(k, v)]"
| "dict_set ((k', v') # m) k v = (if k' = k then (k', v) # m else (k', v') # dict_set m k v)"

fun size_loop :: "uf \<Rightarrow> int list \<Rightarrow> (int \<times> int) list \<Rightarrow> (uf \<times> (int \<times> int) list) res" where
  "size_loop s [] size_map = Some (Inr (s, size_map))"
| "size_loop s (i # rest) size_map =
     Option.bind (find_uf s i) (\<lambda>res.
       case res of
         Inl e \<Rightarrow> Some (Inl e)
       | Inr (s1, root_i) \<Rightarrow>
           size_loop s1 rest (dict_set size_map root_i (dict_get size_map root_i 0 + 1)))"

definition get_component_sizes :: "uf \<Rightarrow> (uf \<times> int list) res" where
  "get_component_sizes s =
     Option.bind (size_loop s (map int [0 ..< length (parent s)]) []) (\<lambda>res.
       case res of
         Inl e \<Rightarrow> Some (Inl e)
       | Inr (s1, size_map) \<Rightarrow> Some (Inr (s1, map snd size_map)))"

subsection \<open>Distances\<close>

text \<open>
  A coordinate is a triple of integers. The sum of squares is an exact integer;
  \<open>math.sqrt\<close> of it is modelled by the real square root: the rounding of the result to a
  double, and the range of doubles, are outside the model.
\<close>

type_synonym coordinate = "int \<times> int \<times> int"
type_synonym distance_pair = "real \<times> int \<times> int"



subsection \<open>Part 2: scan until one component is left\<close>

text \<open>
  The \<open>for\<close> loop of \<open>solve_part2\<close> over the pair list, with its early return, and the
  \<open>raise ValueError\<close> behind the loop. The debug printing is not modelled.
\<close>

fun solve_part2_loop :: "coordinate list \<Rightarrow> uf \<Rightarrow> distance_pair list \<Rightarrow> int res" where
  "solve_part2_loop coordinates s [] = Some (Inl ValueError)"
| "solve_part2_loop coordinates s ((d, idx1, idx2) # rest) =
     Option.bind (union_uf s idx1 idx2) (\<lambda>res.
       case res of
         Inl e \<Rightarrow> Some (Inl e)
       | Inr (s1, unified) \<Rightarrow>
           if unified \<and> component_count s1 = 1 then
             (case (py_get coordinates idx1, py_get coordinates idx2) of
                (Some c1, Some c2) \<Rightarrow> Some (Inr (fst c1 * fst c2))
              | _ \<Rightarrow> Some (Inl IndexError))
           else solve_part2_loop coordinates s1 rest)"

definition solve_part2 :: "coordinate list \<Rightarrow> distance_pair list \<Rightarrow> int res" where
  "solve_part2 coordinates sorted_distances =
     solve_part2_loop coordinates (init (int (length coordinates))) sorted_distances"

subsection \<open>Sequences of operations\<close>

text \<open>
  A client of the structure calls \<open>find\<close>, \<open>union\<close> and \<open>get_component_sizes\<close> in some
  order, with any integer arguments. \<open>run\<close> threads the state through such a sequence and
  counts the unions that returned \<open>True\<close>; it stops at the first exception.
\<close>

datatype operation = Find int | Union int int | ComponentSizes

fun run :: "uf \<Rightarrow> operation list \<Rightarrow> (uf \<times> nat) res" where
  "run s [] = Some (Inr (s, 0))"
| "run s (Find x # ops) =
     Option.bind (find_uf s x) (\<lambda>res.
       case res of Inl e \<Rightarrow> Some (Inl e) | Inr (s1, r) \<Rightarrow> run s1 ops)"
| "run s (Union x y # ops) =
     Option.bind (union_uf s x y) (\<lambda>res.
       case res of
         Inl e \<Rightarrow> Some (Inl e)
       | Inr (s1, b) \<Rightarrow>
           Option.bind (run s1 ops) (\<lambda>res'.
             case res' of
               Inl e \<Rightarrow> Some (Inl e)
             | Inr (s2, k) \<Rightarrow> Some (Inr (s2, if b then Suc k else k))))"
| "run s (ComponentSizes # ops) =
     Option.bind (get_component_sizes s) (\<lambda>res.
       case res of Inl e \<Rightarrow> Some (Inl e) | Inr (s1, sizes) \<Rightarrow> run s1 ops)"

subsection \<open>Part 1 connection budget\<close>

text \<open>\<open>//\<close> is floor division, which is \<open>div\<close> on \<open>int\<close>.\<close>

definition determine_part1_connections :: "int \<Rightarrow> int" where
  "determine_part1_connections num_coords =
     (if num_coords = 20 then 10
      else if num_coords = 1000 then 1000
      else num_coords div 2)"

text \<open>
  Lines 279 to 282 of \<open>main\<close>: the budget handed to part 1 is computed from the number of
  parsed points. The loop of \<open>main\<close> over \<open>sys.argv\<close> only sets the file name and the debug
  flag.
\<close>

definition main_n_connections :: "coordinate list \<Rightarrow> int" where
  "main_n_connections coordinates = determine_part1_connections (int (length coordinates))"

section \<open>Vocabulary of the properties\<close>

subsection \<open>Indices, roots and the representation invariant\<close>

text \<open>
  \<open>ix xs x\<close>: \<open>x\<close> is an index in \<open>[0, len)\<close>. \<open>norm_ix xs x\<close> is the position that the
  Python subscript \<open>x\<close> addresses. \<open>rep ps x r\<close>: following the parent pointers from
  \<open>x\<close> ends in the root \<open>r\<close>.
\<close>

definition ix :: "'a list \<Rightarrow> int \<Rightarrow> bool" where
  "ix xs x = (0 \<le> x \<and> x < int (length xs))"

definition norm_ix :: "'a list \<Rightarrow> int \<Rightarrow> int" where
  "norm_ix xs x = (if x < 0 then x + int (length xs) else x)"

inductive rep :: "int list \<Rightarrow> int \<Rightarrow> int \<Rightarrow> bool" where
  rep_root: "ix ps x \<Longrightarrow> ps ! nat x = x \<Longrightarrow> rep ps x x"
| rep_step: "ix ps x \<Longrightarrow> ps ! nat x \<noteq> x \<Longrightarrow> rep ps (ps ! nat x) r \<Longrightarrow> rep ps x r"

text \<open>
  The invariant of the structure: the two lists have one length, every parent is an index,
  and the rank strictly grows from a node to its parent.
\<close>

definition uf_inv :: "uf \<Rightarrow> bool" where
  "uf_inv s \<longleftrightarrow>
     length (rank s) = length (parent s) \<and>
     (\<forall>x. ix (parent s) x \<longrightarrow> ix (parent s) (parent s ! nat x)) \<and>
     (\<forall>x. ix (parent s) x \<longrightarrow> parent s ! nat x \<noteq> x \<longrightarrow>
            rank s ! nat x < rank s ! nat (parent s ! nat x))"

text \<open>
  \<open>pc s s'\<close>: \<open>s'\<close> is \<open>s\<close> after some path compression (every cell keeps its parent or
  points at its root). \<open>attach s c t s'\<close>: \<open>s'\<close> is \<open>s\<close> after the root \<open>c\<close> was put under
  the root \<open>t\<close>, and the count went down by one.
\<close>

definition pc :: "uf \<Rightarrow> uf \<Rightarrow> bool" where
  "pc s s' \<longleftrightarrow>
     rank s' = rank s \<and> component_count s' = component_count s \<and>
     length (parent s') = length (parent s) \<and>
     (\<forall>x. ix (parent s) x \<longrightarrow>
        parent s' ! nat x = parent s ! nat x \<or> rep (parent s) x (parent s' ! nat x))"

definition attach :: "uf \<Rightarrow> int \<Rightarrow> int \<Rightarrow> uf \<Rightarrow> bool" where
  "attach s c t s' \<longleftrightarrow>
     parent s' = (parent s)[nat c := t] \<and>
     length (rank s') = length (rank s) \<and>
     (\<forall>z. ix (parent s) z \<longrightarrow> z \<noteq> t \<longrightarrow> rank s' ! nat z = rank s ! nat z) \<and>
     rank s ! nat t \<le> rank s' ! nat t \<and>
     rank s ! nat c < rank s' ! nat t \<and>
     component_count s' = component_count s - 1"

text \<open>
  A forest: parents are indices, and walking up from an index comes back to it only when
  it is a root (a root is its own parent). \<open>num_roots\<close> counts the roots.
\<close>

definition forest :: "int list \<Rightarrow> bool" where
  "forest ps \<longleftrightarrow>
     (\<forall>x. ix ps x \<longrightarrow> ix ps (ps ! nat x)) \<and>
     (\<forall>x k. ix ps x \<longrightarrow> 0 < k \<longrightarrow> ((\<lambda>y. ps ! nat y) ^^ k) x = x \<longrightarrow> ps ! nat x = x)"

definition num_roots :: "int list \<Rightarrow> nat" where
  "num_roots ps = length (filter (\<lambda>x. ps ! nat x = x) (map int [0 ..< length ps]))"

subsection \<open>Component sizes and pair order\<close>

text \<open>The update of \<open>size_map\<close> in the body of the loop of \<open>get_component_sizes\<close>.\<close>

definition bump :: "int \<Rightarrow> (int \<times> int) list \<Rightarrow> (int \<times> int) list" where
  "bump r m = dict_set m r (dict_get m r 0 + 1)"


subsection \<open>The scan of part 2, in the words of its specification\<close>



section \<open>Lemmas\<close>

subsection \<open>Subscripts\<close>

lemma py_get_ix: "ix xs x \<Longrightarrow> py_get xs x = Some (xs ! nat x)"
  by (simp add: ix_def py_get_def)

lemma py_set_ix: "ix xs x \<Longrightarrow> py_set xs x v = Some (xs[nat x := v])"
  by (simp add: ix_def py_set_def)

lemma py_get_out: "x < - int (length xs) \<or> int (length xs) \<le> x \<Longrightarrow> py_get xs x = None"
  by (auto simp: py_get_def)

lemma py_get_neg:
  "- int (length xs) \<le> x \<Longrightarrow> x < 0 \<Longrightarrow> py_get xs x = Some (xs ! nat (x + int (length xs)))"
  by (simp add: py_get_def)

lemma py_set_neg:
  "- int (length xs) \<le> x \<Longrightarrow> x < 0 \<Longrightarrow> py_set xs x v = Some (xs[nat (x + int (length xs)) := v])"
  by (simp add: py_set_def)

lemma py_set_length: "py_set xs x v = Some ys \<Longrightarrow> length ys = length xs"
  by (auto simp: py_set_def split: if_splits)

subsection \<open>Roots and the representation invariant\<close>

lemma rep_ix: "rep ps x r \<Longrightarrow> ix ps x"
  by (erule rep.cases) auto

lemma rep_is_root: "rep ps x r \<Longrightarrow> ix ps r \<and> ps ! nat r = r"
  by (induction rule: rep.induct) auto

lemma rep_det: "rep ps x r \<Longrightarrow> rep ps x r' \<Longrightarrow> r' = r"
proof (induction arbitrary: r' rule: rep.induct)
  case (rep_root ps x)
  from rep_root.prems rep_root.hyps show ?case by (cases rule: rep.cases) auto
next
  case (rep_step ps x r)
  from rep_step.prems rep_step.hyps(1,2) have "rep ps (ps ! nat x) r'"
    by (cases rule: rep.cases) auto
  then show ?case by (rule rep_step.IH)
qed

lemma rep_self: "ix ps r \<Longrightarrow> ps ! nat r = r \<Longrightarrow> rep ps r r' \<longleftrightarrow> r' = r"
  using rep_det rep_root by blast

lemma uf_inv_init: "uf_inv (init n)"
  by (auto simp: uf_inv_def init_def ix_def)

lemma rep_total:
  assumes "uf_inv s" "ix (parent s) x"
  shows "\<exists>r. rep (parent s) x r"
  using assms(2)
proof (induction "nat (Max (set (rank s)) - rank s ! nat x)" arbitrary: x rule: less_induct)
  case less
  show ?case
  proof (cases "parent s ! nat x = x")
    case True
    with less.prems show ?thesis by (blast intro: rep_root)
  next
    case False
    let ?p = "parent s ! nat x"
    from assms(1) less.prems have p: "ix (parent s) ?p"
      by (simp add: uf_inv_def)
    from assms(1) less.prems False have lt: "rank s ! nat x < rank s ! nat ?p"
      by (simp add: uf_inv_def)
    from assms(1) p have "nat ?p < length (rank s)"
      by (auto simp: uf_inv_def ix_def)
    then have "rank s ! nat ?p \<in> set (rank s)" by (rule nth_mem)
    then have "rank s ! nat ?p \<le> Max (set (rank s))" by simp
    with lt have "nat (Max (set (rank s)) - rank s ! nat ?p) < nat (Max (set (rank s)) - rank s ! nat x)"
      by linarith
    from less.hyps[OF this p] obtain r where "rep (parent s) ?p r" ..
    with less.prems False show ?thesis by (blast intro: rep_step)
  qed
qed

lemma rep_rank:
  assumes "uf_inv s"
  shows "rep ps x r \<Longrightarrow> ps = parent s \<Longrightarrow> x \<noteq> r \<Longrightarrow> rank s ! nat x < rank s ! nat r"
proof (induction rule: rep.induct)
  case (rep_root ps x)
  then show ?case by simp
next
  case (rep_step ps x r)
  from assms rep_step.hyps(1,2) rep_step.prems(1)
  have lt: "rank s ! nat x < rank s ! nat (ps ! nat x)" by (simp add: uf_inv_def)
  show ?case
  proof (cases "ps ! nat x = r")
    case True with lt show ?thesis by simp
  next
    case False
    with rep_step.IH rep_step.prems(1) lt show ?thesis by simp
  qed
qed

subsection \<open>Path compression keeps the invariant and the representatives\<close>

lemma pc_refl: "pc s s"
  by (simp add: pc_def)

lemma ix_length: "length ps' = length ps \<Longrightarrow> ix ps' x = ix ps x"
  by (simp add: ix_def)

lemma pc_roots:
  assumes "pc s s'" "ix (parent s) x"
  shows "parent s' ! nat x = x \<longleftrightarrow> parent s ! nat x = x"
proof
  assume a: "parent s' ! nat x = x"
  from assms have "parent s' ! nat x = parent s ! nat x \<or> rep (parent s) x (parent s' ! nat x)"
    by (simp add: pc_def)
  with a show "parent s ! nat x = x" using rep_is_root by fastforce
next
  assume a: "parent s ! nat x = x"
  from assms have "parent s' ! nat x = parent s ! nat x \<or> rep (parent s) x (parent s' ! nat x)"
    by (simp add: pc_def)
  with a assms(2) show "parent s' ! nat x = x" using rep_self by auto
qed

lemma pc_inv:
  assumes "uf_inv s" "pc s s'"
  shows "uf_inv s'"
proof -
  have len: "length (parent s') = length (parent s)" "rank s' = rank s"
    using assms(2) by (simp_all add: pc_def)
  have ixeq: "\<And>y. ix (parent s') y = ix (parent s) y" using len by (simp add: ix_def)
  have alt: "\<And>x. ix (parent s) x \<Longrightarrow>
      parent s' ! nat x = parent s ! nat x \<or> rep (parent s) x (parent s' ! nat x)"
    using assms(2) by (simp add: pc_def)
  have rng: "\<And>x. ix (parent s) x \<Longrightarrow> ix (parent s) (parent s' ! nat x)"
    using alt assms(1) rep_is_root unfolding uf_inv_def by metis
  have rk: "\<And>x. ix (parent s) x \<Longrightarrow> parent s' ! nat x \<noteq> x \<Longrightarrow>
      rank s ! nat x < rank s ! nat (parent s' ! nat x)"
  proof -
    fix x assume x: "ix (parent s) x" and ne: "parent s' ! nat x \<noteq> x"
    from alt[OF x] show "rank s ! nat x < rank s ! nat (parent s' ! nat x)"
    proof
      assume e: "parent s' ! nat x = parent s ! nat x"
      with assms(1) x ne show ?thesis by (simp add: uf_inv_def)
    next
      assume "rep (parent s) x (parent s' ! nat x)"
      from rep_rank[OF assms(1) this refl] ne show ?thesis by simp
    qed
  qed
  show ?thesis
    unfolding uf_inv_def using assms(1) len rng rk by (simp add: ixeq uf_inv_def)
qed

lemma pc_rep_fwd:
  assumes "pc s s'"
  shows "rep ps' x r \<Longrightarrow> ps' = parent s' \<Longrightarrow> rep (parent s) x r"
proof (induction rule: rep.induct)
  case (rep_root ps' x)
  from assms rep_root have x: "ix (parent s) x" by (simp add: pc_def ix_def)
  with pc_roots[OF assms x] rep_root show ?case by (simp add: rep.rep_root)
next
  case (rep_step ps' x r)
  from assms rep_step.hyps(1) rep_step.prems have x: "ix (parent s) x" by (simp add: pc_def ix_def)
  from pc_roots[OF assms x] rep_step.hyps(2) rep_step.prems have nr: "parent s ! nat x \<noteq> x" by simp
  from rep_step.IH rep_step.prems have r: "rep (parent s) (parent s' ! nat x) r" by simp
  from assms x have "parent s' ! nat x = parent s ! nat x \<or> rep (parent s) x (parent s' ! nat x)"
    by (simp add: pc_def)
  then show ?case
  proof
    assume "parent s' ! nat x = parent s ! nat x"
    with r x nr show ?thesis by (simp add: rep.rep_step)
  next
    assume a: "rep (parent s) x (parent s' ! nat x)"
    from rep_is_root[OF a] r have "r = parent s' ! nat x" by (simp add: rep_self)
    with a show ?thesis by simp
  qed
qed

lemma pc_rep:
  assumes "uf_inv s" "pc s s'"
  shows "rep (parent s') x r \<longleftrightarrow> rep (parent s) x r"
proof
  assume "rep (parent s') x r"
  then show "rep (parent s) x r" using pc_rep_fwd[OF assms(2)] by simp
next
  assume a: "rep (parent s) x r"
  from assms(2) rep_ix[OF a] have "ix (parent s') x" by (simp add: pc_def ix_def)
  from rep_total[OF pc_inv[OF assms] this] obtain r' where r': "rep (parent s') x r'" ..
  from pc_rep_fwd[OF assms(2) r' refl] a have "r' = r" using rep_det by blast
  with r' show "rep (parent s') x r" by simp
qed

lemma pc_trans:
  assumes "uf_inv s" "pc s s1" "pc s1 s2"
  shows "pc s s2"
  unfolding pc_def
proof (intro conjI allI impI)
  fix x assume x: "ix (parent s) x"
  with assms(2) have x1: "ix (parent s1) x" by (simp add: pc_def ix_def)
  from assms(3) x1 have "parent s2 ! nat x = parent s1 ! nat x \<or> rep (parent s1) x (parent s2 ! nat x)"
    by (simp add: pc_def)
  moreover from assms(2) x have "parent s1 ! nat x = parent s ! nat x \<or> rep (parent s) x (parent s1 ! nat x)"
    by (simp add: pc_def)
  ultimately show "parent s2 ! nat x = parent s ! nat x \<or> rep (parent s) x (parent s2 ! nat x)"
    using pc_rep[OF assms(1,2)] by auto
qed (use assms(2,3) in \<open>simp_all add: pc_def\<close>)

subsection \<open>What \<open>find\<close> returns\<close>

lemma find_uf_rep:
  "rep ps x r \<Longrightarrow> ps = parent s \<Longrightarrow>
     \<exists>s'. find_uf s x = Some (Inr (s', r)) \<and> pc s s' \<and> parent s' ! nat x = r"
proof (induction rule: rep.induct)
  case (rep_root ps x)
  then have "find_uf s x = Some (Inr (s, x))"
    by (subst find_uf.simps) (simp add: py_get_ix)
  with rep_root show ?case by (auto simp: pc_refl)
next
  case (rep_step ps x r)
  then obtain s1 where s1: "find_uf s (ps ! nat x) = Some (Inr (s1, r))" "pc s s1"
    by auto
  let ?s' = "s1\<lparr>parent := (parent s1)[nat x := r]\<rparr>"
  from s1(2) rep_step.hyps(1) rep_step.prems have x1: "ix (parent s1) x"
    by (simp add: pc_def ix_def)
  then have x2: "ix ((parent s1)[nat x := r]) x" by (simp add: ix_def)
  have nth: "(parent s1)[nat x := r] ! nat x = r" using x1 by (simp add: ix_def nat_less_iff)
  have "find_uf s x = Some (Inr (?s', r))"
    using rep_step.hyps(1,2) rep_step.prems s1(1) x1 x2 nth
    by (subst find_uf.simps) (simp add: py_get_ix py_set_ix)
  moreover have "pc s ?s'"
    unfolding pc_def
  proof (intro conjI allI impI)
    fix y assume y: "ix (parent s) y"
    show "parent ?s' ! nat y = parent s ! nat y \<or> rep (parent s) y (parent ?s' ! nat y)"
    proof (cases "y = x")
      case True
      have "rep (parent s) x r"
        using rep.rep_step[OF rep_step.hyps(1,2,3)] rep_step.prems by simp
      with True nth show ?thesis by simp
    next
      case False
      with y rep_step.hyps(1) have "nat y \<noteq> nat x" by (simp add: ix_def eq_nat_nat_iff)
      with s1(2) y show ?thesis by (simp add: pc_def)
    qed
  qed (use s1(2) in \<open>simp_all add: pc_def\<close>)
  ultimately show ?case using nth by auto
qed

lemma find_uf_out:
  "x < - int (length (parent s)) \<or> int (length (parent s)) \<le> x \<Longrightarrow>
     find_uf s x = Some (Inl IndexError)"
  by (subst find_uf.simps) (simp add: py_get_out)

lemma find_uf_frame_aux:
  assumes "find_uf s x = Some res"
  shows "\<forall>s' r. res = Inr (s', r) \<longrightarrow>
           rank s' = rank s \<and> component_count s' = component_count s \<and>
           length (parent s') = length (parent s)"
proof (rule find_uf.raw_induct[where xa = "(s, x)" and y = res and
        P = "\<lambda>s x res. \<forall>s' r. res = Inr (s', r) \<longrightarrow>
           rank s' = rank s \<and> component_count s' = component_count s \<and>
           length (parent s') = length (parent s)", unfolded prod.case], goal_cases)
  case (1 f s x sa)
  show ?case
  proof (intro allI impI)
    fix s' r assume sa: "sa = Inr (s', r)"
    show "rank s' = rank s \<and> component_count s' = component_count s \<and>
           length (parent s') = length (parent s)"
    proof (cases "py_get (parent s) x")
      case None
      with 1(2) sa show ?thesis by simp
    next
      case (Some p)
      show ?thesis
      proof (cases "p = x")
        case True
        with 1(2) Some sa show ?thesis by simp
      next
        case False
        with 1(2) Some obtain y where y: "f s p = Some y"
          and rest: "(case y of Inl e \<Rightarrow> Some (Inl e)
              | Inr (s1, r) \<Rightarrow>
                  (case py_set (parent s1) x r of
                     None \<Rightarrow> Some (Inl IndexError)
                   | Some ps \<Rightarrow>
                       (case py_get ps x of
                          None \<Rightarrow> Some (Inl IndexError)
                        | Some v \<Rightarrow> Some (Inr (s1\<lparr>parent := ps\<rparr>, v))))) = Some sa"
          by (auto simp: Option.bind_eq_Some_conv)
        from rest sa obtain s1 r1 ps where y': "y = Inr (s1, r1)"
          and ps: "py_set (parent s1) x r1 = Some ps" and s': "s' = s1\<lparr>parent := ps\<rparr>"
          by (auto split: sum.splits option.splits)
        from 1(1)[OF y] y' have "rank s1 = rank s \<and> component_count s1 = component_count s \<and>
           length (parent s1) = length (parent s)" by simp
        with s' py_set_length[OF ps] show ?thesis by simp
      qed
    qed
  qed
next
  case 2
  show ?case using assms by simp
qed

lemma find_uf_frame:
  "find_uf s x = Some (Inr (s', r)) \<Longrightarrow>
     rank s' = rank s \<and> component_count s' = component_count s \<and>
     length (parent s') = length (parent s)"
  using find_uf_frame_aux by blast

lemma py_get_wrap:
  "- int (length xs) \<le> x \<Longrightarrow> x < 0 \<Longrightarrow> py_get xs x = py_get xs (x + int (length xs))"
  by (simp add: py_get_def)

lemma py_set_wrap:
  "- int (length xs) \<le> x \<Longrightarrow> x < 0 \<Longrightarrow> py_set xs x v = py_set xs (x + int (length xs)) v"
  by (simp add: py_set_def)

lemma find_uf_neg:
  assumes inv: "uf_inv s" and lo: "- int (length (parent s)) \<le> x" and neg: "x < 0"
  shows "find_uf s x = find_uf s (x + int (length (parent s)))"
proof -
  let ?n = "int (length (parent s))"
  let ?y = "x + ?n"
  let ?p = "parent s ! nat ?y"
  have y: "ix (parent s) ?y" using lo neg by (simp add: ix_def)
  from rep_total[OF inv y] obtain r where r: "rep (parent s) ?y r" ..
  from find_uf_rep[OF r refl] obtain s' where
    s': "find_uf s ?y = Some (Inr (s', r))" "pc s s'" "parent s' ! nat ?y = r" by blast
  from inv y have p: "ix (parent s) ?p" by (simp add: uf_inv_def)
  then have px: "?p \<noteq> x" using neg by (auto simp: ix_def)
  have repp: "rep (parent s) ?p r"
    using r by (cases rule: rep.cases) (auto intro: rep_root)
  from find_uf_rep[OF repp refl] obtain s1 where
    s1: "find_uf s ?p = Some (Inr (s1, r))" "pc s s1" by blast
  from s1(2) have len1: "length (parent s1) = length (parent s)" by (simp add: pc_def)
  have y1: "ix (parent s1) ?y" using y len1 by (simp add: ix_def)
  have nth: "(parent s1)[nat ?y := r] ! nat ?y = r"
    using y1 by (simp add: ix_def nat_less_iff)
  have lhs: "find_uf s x = Some (Inr (s1\<lparr>parent := (parent s1)[nat ?y := r]\<rparr>, r))"
    using lo neg px s1(1) len1 nth
    by (subst find_uf.simps) (simp add: py_get_neg py_set_neg)
  show ?thesis
  proof (cases "?p = ?y")
    case True
    with s1(1) s'(1) have "s1 = s'" by simp
    moreover from s'(3) have "(parent s')[nat ?y := r] = parent s'"
      by (metis list_update_id)
    ultimately have "s1\<lparr>parent := (parent s1)[nat ?y := r]\<rparr> = s1" by simp
    with lhs s1(1) True show ?thesis by simp
  next
    case False
    have y2: "ix ((parent s1)[nat ?y := r]) ?y" using y1 by (simp add: ix_def)
    have "find_uf s ?y = Some (Inr (s1\<lparr>parent := (parent s1)[nat ?y := r]\<rparr>, r))"
      using False s1(1) nth
      by (subst find_uf.simps) (simp add: py_get_ix[OF y] py_get_ix[OF y2] py_set_ix[OF y1])
    with lhs show ?thesis by simp
  qed
qed

lemma find_uf_cases:
  assumes inv: "uf_inv s"
  shows "(find_uf s x = Some (Inl IndexError) \<and> \<not> ix (parent s) (norm_ix (parent s) x)) \<or>
         (\<exists>s' r. find_uf s x = Some (Inr (s', r)) \<and> pc s s' \<and>
                  rep (parent s) (norm_ix (parent s) x) r)"
proof -
  let ?n = "int (length (parent s))"
  consider "x < - ?n \<or> ?n \<le> x" | "- ?n \<le> x \<and> x < 0" | "0 \<le> x \<and> x < ?n" by linarith
  then show ?thesis
  proof cases
    case 1
    then have "\<not> ix (parent s) (norm_ix (parent s) x)" by (auto simp: norm_ix_def ix_def)
    with find_uf_out[OF 1] show ?thesis by simp
  next
    case 2
    then have y: "ix (parent s) (x + ?n)" by (simp add: ix_def)
    from rep_total[OF inv y] obtain r where r: "rep (parent s) (x + ?n) r" ..
    from find_uf_rep[OF r refl] find_uf_neg[OF inv] 2 r show ?thesis
      by (auto simp: norm_ix_def)
  next
    case 3
    then have y: "ix (parent s) x" by (simp add: ix_def)
    from rep_total[OF inv y] obtain r where r: "rep (parent s) x r" ..
    from find_uf_rep[OF r refl] 3 r show ?thesis
      by (auto simp: norm_ix_def)
  qed
qed

subsection \<open>Putting one root under another\<close>

lemma attach_nth:
  assumes "attach s c t s'" "ix (parent s) c" "ix (parent s) z"
  shows "parent s' ! nat z = (if z = c then t else parent s ! nat z)"
  using assms by (auto simp: attach_def ix_def nat_less_iff eq_nat_nat_iff)

lemma attach_inv:
  assumes inv: "uf_inv s" and at: "attach s c t s'"
    and c: "ix (parent s) c" "parent s ! nat c = c"
    and t: "ix (parent s) t" "parent s ! nat t = t" and ne: "c \<noteq> t"
  shows "uf_inv s'"
proof -
  have len: "length (parent s') = length (parent s)" using at by (simp add: attach_def)
  have ixeq: "\<And>z. ix (parent s') z = ix (parent s) z" using len by (simp add: ix_def)
  have nth: "\<And>z. ix (parent s) z \<Longrightarrow> parent s' ! nat z = (if z = c then t else parent s ! nat z)"
    using attach_nth[OF at c(1)] .
  have rk_same: "\<And>z. ix (parent s) z \<Longrightarrow> z \<noteq> t \<Longrightarrow> rank s' ! nat z = rank s ! nat z"
    using at by (simp add: attach_def)
  have rk_ge: "\<And>z. ix (parent s) z \<Longrightarrow> rank s ! nat z \<le> rank s' ! nat z"
    using at rk_same by (metis attach_def order_refl)
  have "\<And>z. ix (parent s) z \<Longrightarrow> parent s' ! nat z \<noteq> z \<Longrightarrow>
      rank s' ! nat z < rank s' ! nat (parent s' ! nat z)"
  proof -
    fix z assume z: "ix (parent s) z" and nz: "parent s' ! nat z \<noteq> z"
    show "rank s' ! nat z < rank s' ! nat (parent s' ! nat z)"
    proof (cases "z = c")
      case True
      with nth[OF z] rk_same[OF c(1) ne] at show ?thesis by (simp add: attach_def)
    next
      case False
      with nth[OF z] nz have p: "parent s' ! nat z = parent s ! nat z" "parent s ! nat z \<noteq> z"
        by simp_all
      with t(2) have zt: "z \<noteq> t" by auto
      from inv z p(2) have lt: "rank s ! nat z < rank s ! nat (parent s ! nat z)"
        by (simp add: uf_inv_def)
      from inv z have "ix (parent s) (parent s ! nat z)" by (simp add: uf_inv_def)
      from rk_ge[OF this] lt rk_same[OF z zt] p(1) show ?thesis by simp
    qed
  qed
  moreover have "\<And>z. ix (parent s) z \<Longrightarrow> ix (parent s) (parent s' ! nat z)"
    using nth t(1) inv by (simp add: uf_inv_def)
  moreover have "length (rank s') = length (parent s')"
    using at inv by (simp add: attach_def uf_inv_def)
  ultimately show ?thesis by (simp add: uf_inv_def ixeq)
qed

lemma attach_rep:
  assumes at: "attach s c t s'"
    and c: "ix (parent s) c" "parent s ! nat c = c"
    and t: "ix (parent s) t" "parent s ! nat t = t" and ne: "c \<noteq> t"
  shows "rep ps z r \<Longrightarrow> ps = parent s \<Longrightarrow> rep (parent s') z (if r = c then t else r)"
proof (induction rule: rep.induct)
  case (rep_root ps z)
  have len: "length (parent s') = length (parent s)" using at by (simp add: attach_def)
  from rep_root have z: "ix (parent s) z" "ix (parent s') z" using len by (simp_all add: ix_def)
  have tt: "rep (parent s') t t"
    using attach_nth[OF at c(1) t(1)] t ne len by (auto intro!: rep.rep_root simp: ix_def)
  show ?case
  proof (cases "z = c")
    case True
    with attach_nth[OF at c(1) c(1)] ne z(2) tt show ?thesis
      by (auto intro: rep.rep_step)
  next
    case False
    with attach_nth[OF at c(1) z(1)] rep_root z(2) show ?thesis
      by (auto intro: rep.rep_root)
  qed
next
  case (rep_step ps z r)
  have len: "length (parent s') = length (parent s)" using at by (simp add: attach_def)
  from rep_step have z: "ix (parent s) z" "ix (parent s') z" using len by (simp_all add: ix_def)
  from rep_step.hyps(2) rep_step.prems c(2) have zc: "z \<noteq> c" by auto
  with attach_nth[OF at c(1) z(1)] have "parent s' ! nat z = parent s ! nat z" by simp
  with rep_step z(2) show ?case by (auto intro: rep.rep_step)
qed

subsection \<open>What \<open>union\<close> returns\<close>

lemma link_attach:
  assumes len: "length (rank s) = length (parent s)"
    and a: "ix (parent s) a" and b: "ix (parent s) b" and ne: "a \<noteq> b"
  shows "\<exists>s'. link s a b = Inr s' \<and>
           attach s (if rank s ! nat a < rank s ! nat b then a else b)
                    (if rank s ! nat a < rank s ! nat b then b else a)
                    (s'\<lparr>component_count := component_count s' - 1\<rparr>) \<and>
           rank s' = (if rank s ! nat a = rank s ! nat b
                      then (rank s)[nat a := rank s ! nat a + 1] else rank s)"
proof -
  have ra: "ix (rank s) a" and rb: "ix (rank s) b" using a b len by (simp_all add: ix_def)
  have na: "nat a < length (rank s)" and nb: "nat b < length (rank s)"
    using ra rb by (simp_all add: ix_def nat_less_iff)
  have nab: "nat a \<noteq> nat b" using a b ne by (simp add: ix_def eq_nat_nat_iff)
  consider "rank s ! nat a < rank s ! nat b" | "rank s ! nat a > rank s ! nat b"
    | "rank s ! nat a = rank s ! nat b" by linarith
  then show ?thesis
  proof cases
    case 1
    then show ?thesis
      by (simp add: link_def py_get_ix[OF ra] py_get_ix[OF rb] py_set_ix[OF a] attach_def)
  next
    case 2
    then show ?thesis
      by (simp add: link_def py_get_ix[OF ra] py_get_ix[OF rb] py_set_ix[OF b] attach_def)
  next
    case 3
    have "\<And>z. ix (parent s) z \<Longrightarrow> z \<noteq> a \<Longrightarrow> nat a \<noteq> nat z"
      using a by (simp add: ix_def eq_nat_nat_iff)
    with 3 na show ?thesis
      by (simp add: link_def py_get_ix[OF ra] py_get_ix[OF rb] py_set_ix[OF b] py_set_ix[OF ra]
          attach_def)
  qed
qed

lemma union_uf_reps:
  assumes inv: "uf_inv s" and rx: "rep (parent s) x rx" and ry: "rep (parent s) y ry"
  shows "\<exists>s1 s2. find_uf s x = Some (Inr (s1, rx)) \<and> find_uf s1 y = Some (Inr (s2, ry)) \<and>
           pc s s2 \<and>
           (if rx = ry then union_uf s x y = Some (Inr (s2, False))
            else \<exists>s'. union_uf s x y = Some (Inr (s', True)) \<and>
                   attach s2 (if rank s ! nat rx < rank s ! nat ry then rx else ry)
                             (if rank s ! nat rx < rank s ! nat ry then ry else rx) s' \<and>
                   rank s' = (if rank s ! nat rx = rank s ! nat ry
                      then (rank s)[nat rx := rank s ! nat rx + 1] else rank s))"
proof -
  from find_uf_rep[OF rx refl] obtain s1 where
    s1: "find_uf s x = Some (Inr (s1, rx))" "pc s s1" by blast
  from ry pc_rep[OF inv s1(2)] have "rep (parent s1) y ry" by simp
  from find_uf_rep[OF this refl] obtain s2 where
    s2: "find_uf s1 y = Some (Inr (s2, ry))" "pc s1 s2" by blast
  have pc2: "pc s s2" using pc_trans[OF inv s1(2) s2(2)] .
  have rk: "rank s2 = rank s" and len: "length (parent s2) = length (parent s)"
    using pc2 by (simp_all add: pc_def)
  show ?thesis
  proof (cases "rx = ry")
    case True
    with s1(1) s2(1) pc2 show ?thesis by (auto simp: union_uf_def)
  next
    case False
    have inv2: "uf_inv s2" using pc_inv[OF inv pc2] .
    have a: "ix (parent s2) rx" and b: "ix (parent s2) ry"
      using rep_is_root[OF rx] rep_is_root[OF ry] len by (simp_all add: ix_def)
    from inv2 have l2: "length (rank s2) = length (parent s2)" by (simp add: uf_inv_def)
    from link_attach[OF l2 a b False] obtain s3 where
      s3: "link s2 rx ry = Inr s3"
        "attach s2 (if rank s2 ! nat rx < rank s2 ! nat ry then rx else ry)
                    (if rank s2 ! nat rx < rank s2 ! nat ry then ry else rx)
                    (s3\<lparr>component_count := component_count s3 - 1\<rparr>)"
        "rank s3 = (if rank s2 ! nat rx = rank s2 ! nat ry
                      then (rank s2)[nat rx := rank s2 ! nat rx + 1] else rank s2)"
      by blast
    have "union_uf s x y = Some (Inr (s3\<lparr>component_count := component_count s3 - 1\<rparr>, True))"
      using s1(1) s2(1) False s3(1) by (simp add: union_uf_def)
    with s3(2,3) pc2 False s1(1) s2(1) show ?thesis unfolding rk by auto
  qed
qed

lemma union_uf_neg:
  assumes inv: "uf_inv s"
  shows "(ix (parent s) (norm_ix (parent s) x) \<and> ix (parent s) (norm_ix (parent s) y) \<and>
          union_uf s x y = union_uf s (norm_ix (parent s) x) (norm_ix (parent s) y)) \<or>
         (union_uf s x y = Some (Inl IndexError) \<and>
          (\<not> ix (parent s) (norm_ix (parent s) x) \<or> \<not> ix (parent s) (norm_ix (parent s) y)))"
proof -
  let ?n = "int (length (parent s))"
  have fx: "ix (parent s) (norm_ix (parent s) x) \<Longrightarrow> find_uf s x = find_uf s (norm_ix (parent s) x)"
    using find_uf_neg[OF inv, of x] by (auto simp: norm_ix_def ix_def)
  from find_uf_cases[OF inv, of x] show ?thesis
  proof (elim disjE conjE exE)
    assume "find_uf s x = Some (Inl IndexError)" "\<not> ix (parent s) (norm_ix (parent s) x)"
    then show ?thesis by (simp add: union_uf_def)
  next
    fix s1 r
    assume f: "find_uf s x = Some (Inr (s1, r))" and pc1: "pc s s1"
      and r: "rep (parent s) (norm_ix (parent s) x) r"
    have inv1: "uf_inv s1" using pc_inv[OF inv pc1] .
    have len: "length (parent s1) = length (parent s)" using pc1 by (simp add: pc_def)
    have fx': "find_uf s (norm_ix (parent s) x) = Some (Inr (s1, r))"
      using fx[OF rep_ix[OF r]] f by simp
    from find_uf_cases[OF inv1, of y] show ?thesis
    proof (elim disjE conjE exE)
      assume e: "find_uf s1 y = Some (Inl IndexError)"
        and n: "\<not> ix (parent s1) (norm_ix (parent s1) y)"
      from f e have "union_uf s x y = Some (Inl IndexError)" by (simp add: union_uf_def)
      moreover from n len have "\<not> ix (parent s) (norm_ix (parent s) y)"
        by (auto simp: norm_ix_def ix_def split: if_splits)
      ultimately show ?thesis by blast
    next
      fix s2 r2
      assume "rep (parent s1) (norm_ix (parent s1) y) r2"
      from rep_ix[OF this] have vy: "ix (parent s1) (norm_ix (parent s1) y)" .
      with find_uf_neg[OF inv1, of y] have "find_uf s1 y = find_uf s1 (norm_ix (parent s) y)"
        using len by (auto simp: norm_ix_def ix_def)
      with f fx' have "union_uf s x y = union_uf s (norm_ix (parent s) x) (norm_ix (parent s) y)"
        by (simp add: union_uf_def)
      moreover from vy len have "ix (parent s) (norm_ix (parent s) y)"
        by (auto simp: norm_ix_def ix_def split: if_splits)
      ultimately show ?thesis using rep_ix[OF r] by blast
    qed
  qed
qed

lemma bind_res_Inr:
  "Option.bind m (\<lambda>res. case res of Inl e \<Rightarrow> Some (Inl e) | Inr v \<Rightarrow> f v) = Some (Inr w) \<longleftrightarrow>
     (\<exists>v. m = Some (Inr v) \<and> f v = Some (Inr w))"
  by (cases m) (auto split: sum.splits)

lemma link_count: "link s a b = Inr s' \<Longrightarrow> component_count s' = component_count s"
  by (auto simp: link_def split: option.splits if_splits)

lemma union_uf_count:
  assumes "union_uf s x y = Some (Inr (s', b))"
  shows "component_count s' = component_count s - (if b then 1 else 0)"
proof -
  from assms obtain s1 rx where f1: "find_uf s x = Some (Inr (s1, rx))"
    and rest1: "Option.bind (find_uf s1 y) (\<lambda>res2.
             case res2 of
               Inl e \<Rightarrow> Some (Inl e)
             | Inr (s2, root_y) \<Rightarrow>
                 if rx = root_y then Some (Inr (s2, False))
                 else
                   (case link s2 rx root_y of
                      Inl e \<Rightarrow> Some (Inl e)
                    | Inr s3 \<Rightarrow>
                        Some (Inr (s3\<lparr>component_count := component_count s3 - 1\<rparr>, True)))) =
        Some (Inr (s', b))"
    by (auto simp: union_uf_def bind_res_Inr)
  from rest1 obtain s2 ry where f2: "find_uf s1 y = Some (Inr (s2, ry))"
    and rest2: "(if rx = ry then Some (Inr (s2, False))
                 else
                   (case link s2 rx ry of
                      Inl e \<Rightarrow> Some (Inl e)
                    | Inr s3 \<Rightarrow>
                        Some (Inr (s3\<lparr>component_count := component_count s3 - 1\<rparr>, True)))) =
        Some (Inr (s', b))"
    by (auto simp: bind_res_Inr)
  from find_uf_frame[OF f1] find_uf_frame[OF f2]
  have c2: "component_count s2 = component_count s" by simp
  show ?thesis
  proof (cases "rx = ry")
    case True
    with rest2 c2 show ?thesis by auto
  next
    case False
    with rest2 obtain s3 where "link s2 rx ry = Inr s3"
      "s' = s3\<lparr>component_count := component_count s3 - 1\<rparr>" "b"
      by (auto split: sum.splits)
    with link_count[OF this(1)] c2 show ?thesis by simp
  qed
qed

lemma union_uf_inv:
  assumes inv: "uf_inv s" and u: "union_uf s x y = Some (Inr (s', b))"
  shows "uf_inv s' \<and> length (parent s') = length (parent s)"
proof -
  let ?x = "norm_ix (parent s) x" and ?y = "norm_ix (parent s) y"
  from union_uf_neg[OF inv, of x y] u have u': "union_uf s ?x ?y = Some (Inr (s', b))"
    and vx: "ix (parent s) ?x" and vy: "ix (parent s) ?y" by auto
  from rep_total[OF inv vx] obtain rx where rx: "rep (parent s) ?x rx" ..
  from rep_total[OF inv vy] obtain ry where ry: "rep (parent s) ?y ry" ..
  from union_uf_reps[OF inv rx ry] obtain s2 where pc2: "pc s s2"
    and alt: "if rx = ry then union_uf s ?x ?y = Some (Inr (s2, False))
            else \<exists>s'. union_uf s ?x ?y = Some (Inr (s', True)) \<and>
                   attach s2 (if rank s ! nat rx < rank s ! nat ry then rx else ry)
                             (if rank s ! nat rx < rank s ! nat ry then ry else rx) s' \<and>
                   rank s' = (if rank s ! nat rx = rank s ! nat ry
                      then (rank s)[nat rx := rank s ! nat rx + 1] else rank s)"
    by blast
  have inv2: "uf_inv s2" using pc_inv[OF inv pc2] .
  have len2: "length (parent s2) = length (parent s)" using pc2 by (simp add: pc_def)
  show ?thesis
  proof (cases "rx = ry")
    case True
    with alt u' inv2 len2 show ?thesis by simp
  next
    case False
    let ?c = "if rank s ! nat rx < rank s ! nat ry then rx else ry"
    let ?t = "if rank s ! nat rx < rank s ! nat ry then ry else rx"
    from False alt u' have at: "attach s2 ?c ?t s'" by auto
    have roots: "ix (parent s2) rx" "parent s2 ! nat rx = rx" "ix (parent s2) ry" "parent s2 ! nat ry = ry"
      using rep_is_root[OF rx] rep_is_root[OF ry] len2 pc_roots[OF pc2] by (simp_all add: ix_def)
    have "uf_inv s'"
      by (rule attach_inv[OF inv2 at]) (use roots False in auto)
    moreover have "length (parent s') = length (parent s2)" using at by (simp add: attach_def)
    ultimately show ?thesis using len2 by simp
  qed
qed

subsection \<open>Operation sequences\<close>

lemma find_uf_inv:
  assumes inv: "uf_inv s" and f: "find_uf s x = Some (Inr (s', r))"
  shows "pc s s'"
  using find_uf_cases[OF inv, of x] f by auto

lemma size_loop_pc:
  "uf_inv s \<Longrightarrow> size_loop s idxs m = Some (Inr (s', m')) \<Longrightarrow> pc s s'"
proof (induction idxs arbitrary: s m)
  case Nil
  then show ?case by (simp add: pc_refl)
next
  case (Cons i idxs)
  from Cons.prems(2) obtain s1 r where f: "find_uf s i = Some (Inr (s1, r))"
    and rest: "size_loop s1 idxs (dict_set m r (dict_get m r 0 + 1)) = Some (Inr (s', m'))"
    by (auto simp: bind_res_Inr)
  have pc1: "pc s s1" using find_uf_inv[OF Cons.prems(1) f] .
  from Cons.IH[OF pc_inv[OF Cons.prems(1) pc1] rest] have "pc s1 s'" .
  with pc1 Cons.prems(1) show ?case by (blast intro: pc_trans)
qed

lemma get_component_sizes_pc:
  "uf_inv s \<Longrightarrow> get_component_sizes s = Some (Inr (s', sizes)) \<Longrightarrow> pc s s'"
  by (auto simp: get_component_sizes_def bind_res_Inr dest: size_loop_pc)

lemma run_inv:
  "uf_inv s \<Longrightarrow> run s ops = Some (Inr (s', k)) \<Longrightarrow>
     uf_inv s' \<and> length (parent s') = length (parent s)"
proof (induction s ops arbitrary: s' k rule: run.induct)
  case (1 s)
  then show ?case by simp
next
  case (2 s x ops)
  from 2(3) obtain s1 r where f: "find_uf s x = Some (Inr (s1, r))"
    and rest: "run s1 ops = Some (Inr (s', k))"
    by (auto simp: bind_res_Inr)
  have pc1: "pc s s1" using find_uf_inv[OF 2(2) f] .
  from 2(1)[OF f refl refl pc_inv[OF 2(2) pc1] rest] pc1 show ?case
    by (simp add: pc_def)
next
  case (3 s x y ops)
  from 3(3) obtain s1 b k' where u: "union_uf s x y = Some (Inr (s1, b))"
    and rest: "run s1 ops = Some (Inr (s', k'))"
    by (auto simp: bind_res_Inr)
  from union_uf_inv[OF 3(2) u] 3(1)[OF u refl refl _ rest] show ?case by simp
next
  case (4 s ops)
  from 4(3) obtain s1 sizes where g: "get_component_sizes s = Some (Inr (s1, sizes))"
    and rest: "run s1 ops = Some (Inr (s', k))"
    by (auto simp: bind_res_Inr)
  have pc1: "pc s s1" using get_component_sizes_pc[OF 4(2) g] .
  from 4(1)[OF g refl refl pc_inv[OF 4(2) pc1] rest] pc1 show ?case
    by (simp add: pc_def)
qed

lemma reachable_inv:
  assumes "run (init n) ops = Some (Inr (s, k))"
  shows "uf_inv s \<and> int (length (parent s)) = max 0 n"
  using run_inv[OF uf_inv_init assms] by (auto simp: init_def)

lemma size_loop_frame:
  "size_loop s idxs m = Some (Inr (s', m')) \<Longrightarrow>
     rank s' = rank s \<and> component_count s' = component_count s \<and>
     length (parent s') = length (parent s)"
proof (induction idxs arbitrary: s m)
  case Nil
  then show ?case by simp
next
  case (Cons i idxs)
  from Cons.prems obtain s1 r where f: "find_uf s i = Some (Inr (s1, r))"
    and rest: "size_loop s1 idxs (dict_set m r (dict_get m r 0 + 1)) = Some (Inr (s', m'))"
    by (auto simp: bind_res_Inr)
  from Cons.IH[OF rest] find_uf_frame[OF f] show ?case by simp
qed

lemma get_component_sizes_frame:
  "get_component_sizes s = Some (Inr (s', sizes)) \<Longrightarrow>
     rank s' = rank s \<and> component_count s' = component_count s \<and>
     length (parent s') = length (parent s)"
  by (auto simp: get_component_sizes_def bind_res_Inr dest: size_loop_frame)

lemma run_count:
  "run s ops = Some (Inr (s', k)) \<Longrightarrow> component_count s' = component_count s - int k"
proof (induction s ops arbitrary: s' k rule: run.induct)
  case (1 s)
  then show ?case by simp
next
  case (2 s x ops)
  from 2(2) obtain s1 r where f: "find_uf s x = Some (Inr (s1, r))"
    and rest: "run s1 ops = Some (Inr (s', k))"
    by (auto simp: bind_res_Inr)
  from 2(1)[OF f refl refl rest] find_uf_frame[OF f] show ?case by simp
next
  case (3 s x y ops)
  from 3(2) obtain s1 b k' where u: "union_uf s x y = Some (Inr (s1, b))"
    and rest: "run s1 ops = Some (Inr (s', k'))" and k: "k = (if b then Suc k' else k')"
    by (auto simp: bind_res_Inr)
  from 3(1)[OF u refl refl rest] union_uf_count[OF u] k show ?case by simp
next
  case (4 s ops)
  from 4(2) obtain s1 sizes where g: "get_component_sizes s = Some (Inr (s1, sizes))"
    and rest: "run s1 ops = Some (Inr (s', k))"
    by (auto simp: bind_res_Inr)
  from 4(1)[OF g refl refl rest] get_component_sizes_frame[OF g] show ?case by simp
qed

lemma run_append:
  "run s (ops1 @ ops2) = Some (Inr (s2, k)) \<Longrightarrow>
     \<exists>s1 k1 k2. run s ops1 = Some (Inr (s1, k1)) \<and> run s1 ops2 = Some (Inr (s2, k2)) \<and>
                k = k1 + k2"
proof (induction s ops1 arbitrary: s2 k rule: run.induct)
  case (1 s)
  then show ?case by simp
next
  case (2 s x ops)
  from 2(2) obtain s1 r where f: "find_uf s x = Some (Inr (s1, r))"
    and rest: "run s1 (ops @ ops2) = Some (Inr (s2, k))"
    by (auto simp: bind_res_Inr)
  from 2(1)[OF f refl refl rest] f show ?case by (simp add: bind_res_Inr)
next
  case (3 s x y ops)
  from 3(2) obtain s1 b k' where u: "union_uf s x y = Some (Inr (s1, b))"
    and rest: "run s1 (ops @ ops2) = Some (Inr (s2, k'))" and k: "k = (if b then Suc k' else k')"
    by (auto simp: bind_res_Inr)
  from 3(1)[OF u refl refl rest] u k show ?case by (auto simp: bind_res_Inr)
next
  case (4 s ops)
  from 4(2) obtain s1 sizes where g: "get_component_sizes s = Some (Inr (s1, sizes))"
    and rest: "run s1 (ops @ ops2) = Some (Inr (s2, k))"
    by (auto simp: bind_res_Inr)
  from 4(1)[OF g refl refl rest] g show ?case by (simp add: bind_res_Inr)
qed

subsection \<open>The invariant gives a forest\<close>

lemma inv_walk:
  assumes inv: "uf_inv s" and x: "ix (parent s) x"
  shows "ix (parent s) (((\<lambda>y. parent s ! nat y) ^^ k) x) \<and>
         rank s ! nat x \<le> rank s ! nat (((\<lambda>y. parent s ! nat y) ^^ k) x)"
proof (induction k)
  case 0
  show ?case using x by simp
next
  case (Suc k)
  let ?z = "((\<lambda>y. parent s ! nat y) ^^ k) x"
  from Suc have z: "ix (parent s) ?z" and le: "rank s ! nat x \<le> rank s ! nat ?z" by simp_all
  from inv z have pz: "ix (parent s) (parent s ! nat ?z)" by (simp add: uf_inv_def)
  have "rank s ! nat ?z \<le> rank s ! nat (parent s ! nat ?z)"
  proof (cases "parent s ! nat ?z = ?z")
    case True
    then show ?thesis by simp
  next
    case False
    with inv z show ?thesis by (simp add: uf_inv_def less_imp_le)
  qed
  with pz le show ?case by simp
qed

lemma inv_forest:
  assumes inv: "uf_inv s"
  shows "forest (parent s)"
  unfolding forest_def
proof (intro conjI allI impI)
  fix x assume "ix (parent s) x"
  with inv show "ix (parent s) (parent s ! nat x)" by (simp add: uf_inv_def)
next
  fix x and k :: nat
  assume x: "ix (parent s) x" and k: "0 < k"
    and cyc: "((\<lambda>y. parent s ! nat y) ^^ k) x = x"
  show "parent s ! nat x = x"
  proof (rule ccontr)
    assume nr: "parent s ! nat x \<noteq> x"
    from k obtain j where j: "k = Suc j" by (cases k) auto
    from inv x have px: "ix (parent s) (parent s ! nat x)" by (simp add: uf_inv_def)
    from inv x nr have lt: "rank s ! nat x < rank s ! nat (parent s ! nat x)"
      by (simp add: uf_inv_def)
    from inv_walk[OF inv px, of j]
    have "rank s ! nat (parent s ! nat x) \<le>
          rank s ! nat (((\<lambda>y. parent s ! nat y) ^^ j) (parent s ! nat x))" by simp
    moreover have "((\<lambda>y. parent s ! nat y) ^^ j) (parent s ! nat x) = x"
      using cyc j funpow_swap1[of "\<lambda>y. parent s ! nat y" j x] by simp
    ultimately show False using lt by simp
  qed
qed

lemma find_uf_valid:
  assumes inv: "uf_inv s" and x: "0 \<le> x" "x < int (length (parent s))"
    and f: "find_uf s x = Some (Inr (s', r))"
  shows "rep (parent s) x r \<and> pc s s'"
proof -
  from x have "ix (parent s) x" by (simp add: ix_def)
  from rep_total[OF inv this] obtain r' where r': "rep (parent s) x r'" ..
  from find_uf_rep[OF r' refl] f r' show ?thesis by auto
qed

subsection \<open>Pairwise distances\<close>







subsection \<open>Component sizes\<close>

lemma sum_dict_set:
  "sum_list (map snd (dict_set m k v)) = sum_list (map snd m) - dict_get m k 0 + (v :: int)"
  by (induction m) auto

lemma keys_dict_set:
  "map fst (dict_set m k v) = (if k \<in> set (map fst m) then map fst m else map fst m @ [k])"
proof (induction m)
  case Nil
  show ?case by simp
next
  case (Cons a m)
  obtain k' v' where a: "a = (k', v')" by (cases a)
  show ?case using Cons.IH by (cases "k' = k") (auto simp: a)
qed

lemma sum_bump: "sum_list (map snd (bump r m)) = sum_list (map snd m) + 1"
  by (simp add: bump_def sum_dict_set)

lemma fold_bump_sum:
  "sum_list (map snd (fold bump rs m)) = sum_list (map snd m) + int (length rs)"
  by (induction rs arbitrary: m) (simp_all add: sum_bump)

lemma fold_bump_keys:
  "distinct (map fst m) \<Longrightarrow>
     distinct (map fst (fold bump rs m)) \<and>
     set (map fst (fold bump rs m)) = set (map fst m) \<union> set rs"
proof (induction rs arbitrary: m)
  case Nil
  then show ?case by simp
next
  case (Cons r rs)
  have "distinct (map fst (bump r m))" "set (map fst (bump r m)) = insert r (set (map fst m))"
    using Cons.prems by (auto simp: bump_def keys_dict_set)
  with Cons.IH[of "bump r m"] show ?case by auto
qed

lemma size_loop_reps:
  "uf_inv s \<Longrightarrow> \<forall>i \<in> set idxs. ix (parent s) i \<Longrightarrow>
     \<exists>s' rs. size_loop s idxs m = Some (Inr (s', fold bump rs m)) \<and> pc s s' \<and>
             list_all2 (rep (parent s)) idxs rs"
proof (induction idxs arbitrary: s m)
  case Nil
  then show ?case by (auto simp: pc_refl)
next
  case (Cons i idxs)
  from Cons.prems have vi: "ix (parent s) i" by simp
  from rep_total[OF Cons.prems(1) vi] obtain r where r: "rep (parent s) i r" ..
  from find_uf_rep[OF r refl] obtain s1 where
    f: "find_uf s i = Some (Inr (s1, r))" and pc1: "pc s s1" by blast
  have inv1: "uf_inv s1" using pc_inv[OF Cons.prems(1) pc1] .
  have "\<forall>i \<in> set idxs. ix (parent s1) i" using Cons.prems(2) pc1 by (simp add: pc_def ix_def)
  from Cons.IH[OF inv1 this, of "bump r m"] obtain s' rs where
    l: "size_loop s1 idxs (bump r m) = Some (Inr (s', fold bump rs (bump r m)))"
    and pc2: "pc s1 s'" and reps: "list_all2 (rep (parent s1)) idxs rs" by blast
  have "list_all2 (rep (parent s)) idxs rs"
    using reps pc_rep[OF Cons.prems(1) pc1] by (simp add: list_all2_conv_all_nth)
  with r have "list_all2 (rep (parent s)) (i # idxs) (r # rs)" by simp
  moreover have "size_loop s (i # idxs) m = Some (Inr (s', fold bump (r # rs) m))"
    using f l by (simp add: bump_def)
  moreover have "pc s s'" using pc_trans[OF Cons.prems(1) pc1 pc2] .
  ultimately show ?case by blast
qed

lemma num_roots_card: "num_roots ps = card {x. ix ps x \<and> ps ! nat x = x}"
proof -
  have d: "distinct (filter (\<lambda>x. ps ! nat x = x) (map int [0 ..< length ps]))"
    by (simp add: distinct_map inj_on_def)
  have "set (filter (\<lambda>x. ps ! nat x = x) (map int [0 ..< length ps])) =
        {x. ix ps x \<and> ps ! nat x = x}"
  proof -
    have "x \<in> int ` {0..<length ps} \<longleftrightarrow> ix ps x" for x
    proof
      assume "x \<in> int ` {0..<length ps}"
      then show "ix ps x" by (auto simp: ix_def)
    next
      assume "ix ps x"
      then have "x = int (nat x)" "nat x \<in> {0..<length ps}" by (auto simp: ix_def)
      then show "x \<in> int ` {0..<length ps}" by (rule image_eqI)
    qed
    then show ?thesis by auto
  qed
  with distinct_card[OF d] show ?thesis by (simp add: num_roots_def)
qed

lemma pc_num_roots:
  assumes "pc s s'"
  shows "num_roots (parent s') = num_roots (parent s)"
proof -
  have "ix (parent s') x = ix (parent s) x" for x using assms by (simp add: pc_def ix_def)
  then have "{x. ix (parent s') x \<and> parent s' ! nat x = x} =
        {x. ix (parent s) x \<and> parent s ! nat x = x}"
    using pc_roots[OF assms] by auto
  then show ?thesis by (simp add: num_roots_card)
qed

lemma roots_of_all:
  assumes inv: "uf_inv s" and reps: "list_all2 (rep (parent s)) (map int [0 ..< length (parent s)]) rs"
  shows "set rs = {x. ix (parent s) x \<and> parent s ! nat x = x}"
proof (intro set_eqI iffI)
  fix r assume "r \<in> set rs"
  then obtain k where k: "k < length rs" "rs ! k = r" by (auto simp: in_set_conv_nth)
  with reps have "rep (parent s) (map int [0 ..< length (parent s)] ! k) r"
    by (auto simp: list_all2_conv_all_nth)
  from rep_is_root[OF this] show "r \<in> {x. ix (parent s) x \<and> parent s ! nat x = x}" by simp
next
  fix r assume "r \<in> {x. ix (parent s) x \<and> parent s ! nat x = x}"
  then have r: "ix (parent s) r" "parent s ! nat r = r" by simp_all
  then have k: "nat r < length (parent s)" by (simp add: ix_def nat_less_iff)
  from reps have len: "length rs = length (parent s)" by (auto simp: list_all2_conv_all_nth)
  have "rep (parent s) (map int [0 ..< length (parent s)] ! nat r) (rs ! nat r)"
    by (rule list_all2_nthD[OF reps]) (simp add: k)
  with k r(1) have "rep (parent s) r (rs ! nat r)" by (simp add: ix_def)
  with rep_self[OF r] have "rs ! nat r = r" by simp
  with k len show "r \<in> set rs" by (metis nth_mem)
qed

lemma get_component_sizes_inv:
  assumes inv: "uf_inv s"
  shows "\<exists>s' sizes. get_component_sizes s = Some (Inr (s', sizes)) \<and> pc s s' \<and>
           sum_list sizes = int (length (parent s)) \<and>
           length sizes = num_roots (parent s)"
proof -
  let ?idxs = "map int [0 ..< length (parent s)]"
  have "\<forall>i \<in> set ?idxs. ix (parent s) i" by (auto simp: ix_def)
  from size_loop_reps[OF inv this, of "[]"] obtain s' rs where
    l: "size_loop s ?idxs [] = Some (Inr (s', fold bump rs []))" and pc1: "pc s s'"
    and reps: "list_all2 (rep (parent s)) ?idxs rs" by blast
  let ?m = "fold bump rs []"
  have g: "get_component_sizes s = Some (Inr (s', map snd ?m))"
    using l by (simp add: get_component_sizes_def)
  from reps have len: "length rs = length (parent s)" by (auto simp: list_all2_conv_all_nth)
  have sum: "sum_list (map snd ?m) = int (length (parent s))"
    using fold_bump_sum[of rs "[]"] len by simp
  from fold_bump_keys[of "[]" rs] have d: "distinct (map fst ?m)" and k: "set (map fst ?m) = set rs"
    by simp_all
  have "length (map snd ?m) = length (map fst ?m)" by simp
  also have "\<dots> = card (set (map fst ?m))" using distinct_card[OF d] by simp
  also have "\<dots> = num_roots (parent s)"
    using k roots_of_all[OF inv reps] by (simp add: num_roots_card)
  finally have "length (map snd ?m) = num_roots (parent s)" .
  with g pc1 sum show ?thesis by blast
qed

subsection \<open>The scan of part 2\<close>























section \<open>The claims\<close>

text \<open>
  C1 (amended): in a reachable state, for indices \<open>x\<close>, \<open>y\<close> in \<open>[0, size)\<close> whose roots
  \<open>rx\<close> and \<open>ry\<close> differ, \<open>union\<close> returns \<open>True\<close>; when the two ranks are equal the new
  root is the root of \<open>x\<close>'s tree (the root of \<open>y\<close>'s tree is put under it) and its rank
  grows by exactly one; when the ranks differ the root of strictly smaller rank is put
  under the other and no rank changes. Afterwards \<open>find\<close> of \<open>x\<close> and of \<open>y\<close> both return
  the new root.
\<close>

theorem union_by_rank:
  assumes run: "run (init n) ops = Some (Inr (s, k))"
    and x: "0 \<le> x" "x < int (length (parent s))"
    and y: "0 \<le> y" "y < int (length (parent s))"
    and fx: "find_uf s x = Some (Inr (s1, rx))"
    and fy: "find_uf s1 y = Some (Inr (s2, ry))"
    and ne: "rx \<noteq> ry"
  shows "\<exists>s'. union_uf s x y = Some (Inr (s', True)) \<and>
           (rank s ! nat rx = rank s ! nat ry \<longrightarrow>
              parent s' = (parent s2)[nat ry := rx] \<and>
              rank s' = (rank s)[nat rx := rank s ! nat rx + 1] \<and>
              rank s' ! nat rx = rank s ! nat rx + 1) \<and>
           (rank s ! nat rx < rank s ! nat ry \<longrightarrow>
              parent s' = (parent s2)[nat rx := ry] \<and> rank s' = rank s) \<and>
           (rank s ! nat ry < rank s ! nat rx \<longrightarrow>
              parent s' = (parent s2)[nat ry := rx] \<and> rank s' = rank s) \<and>
           (\<exists>sa sb. find_uf s' x =
                      Some (Inr (sa, if rank s ! nat rx < rank s ! nat ry then ry else rx)) \<and>
                    find_uf sa y =
                      Some (Inr (sb, if rank s ! nat rx < rank s ! nat ry then ry else rx)))"
proof -
  let ?c = "if rank s ! nat rx < rank s ! nat ry then rx else ry"
  let ?t = "if rank s ! nat rx < rank s ! nat ry then ry else rx"
  from reachable_inv[OF run] have inv: "uf_inv s" by simp
  from find_uf_valid[OF inv x fx] have rx: "rep (parent s) x rx" and pc1: "pc s s1" by simp_all
  have inv1: "uf_inv s1" using pc_inv[OF inv pc1] .
  have len1: "length (parent s1) = length (parent s)" using pc1 by (simp add: pc_def)
  from find_uf_valid[OF inv1 _ _ fy] y len1 have "rep (parent s1) y ry" by simp
  with pc_rep[OF inv pc1] have ry: "rep (parent s) y ry" by simp
  from union_uf_reps[OF inv rx ry] ne fx fy obtain s' where
    pc2: "pc s s2" and u: "union_uf s x y = Some (Inr (s', True))"
    and at: "attach s2 ?c ?t s'"
    and rk: "rank s' = (if rank s ! nat rx = rank s ! nat ry
                      then (rank s)[nat rx := rank s ! nat rx + 1] else rank s)"
    by auto
  have inv2: "uf_inv s2" using pc_inv[OF inv pc2] .
  have len2: "length (parent s2) = length (parent s)" using pc2 by (simp add: pc_def)
  have roots: "ix (parent s2) rx" "parent s2 ! nat rx = rx" "ix (parent s2) ry" "parent s2 ! nat ry = ry"
    using rep_is_root[OF rx] rep_is_root[OF ry] len2 pc_roots[OF pc2] by (simp_all add: ix_def)
  have c: "ix (parent s2) ?c" "parent s2 ! nat ?c = ?c" and t: "ix (parent s2) ?t" "parent s2 ! nat ?t = ?t"
    and ct: "?c \<noteq> ?t" using roots ne by auto
  have inv': "uf_inv s'" using attach_inv[OF inv2 at c t ct] .
  have rx2: "rep (parent s2) x rx" and ry2: "rep (parent s2) y ry"
    using rx ry pc_rep[OF inv pc2] by simp_all
  from attach_rep[OF at c t ct rx2 refl] ne have rx': "rep (parent s') x ?t" by (simp split: if_splits)
  from attach_rep[OF at c t ct ry2 refl] ne have ry': "rep (parent s') y ?t" by (simp split: if_splits)
  from find_uf_rep[OF rx' refl] obtain sa where
    sa: "find_uf s' x = Some (Inr (sa, ?t))" "pc s' sa" by blast
  from ry' pc_rep[OF inv' sa(2)] have "rep (parent sa) y ?t" by simp
  from find_uf_rep[OF this refl] obtain sb where "find_uf sa y = Some (Inr (sb, ?t))" by blast
  with sa(1) have finds: "\<exists>sa sb. find_uf s' x = Some (Inr (sa, ?t)) \<and> find_uf sa y = Some (Inr (sb, ?t))"
    by blast
  have par: "parent s' = (parent s2)[nat ?c := ?t]" using at by (simp add: attach_def)
  have nrx: "nat rx < length (rank s)"
    using roots(1) len2 inv by (simp add: ix_def uf_inv_def nat_less_iff)
  show ?thesis
    using u par rk finds nrx by (intro exI[of _ s']) auto
qed

theorem union_by_rank_witness:
  "(\<exists>s'. union_uf (init 2) 0 1 = Some (Inr (s', True)) \<and>
         parent s' = [0, 0] \<and> rank s' = [1, 0] \<and>
         (\<exists>sa sb. find_uf s' 0 = Some (Inr (sa, 0)) \<and> find_uf sa 1 = Some (Inr (sb, 0)))) \<and>
   (\<exists>s'. union_uf \<lparr>parent = [0, 0, 2], rank = [1, 0, 0], component_count = 2\<rparr> 2 1 =
           Some (Inr (s', True)) \<and>
         parent s' = [0, 0, 0] \<and> rank s' = [1, 0, 0]) \<and>
   (\<exists>s'. union_uf \<lparr>parent = [0, 0, 2], rank = [1, 0, 0], component_count = 2\<rparr> 1 2 =
           Some (Inr (s', True)) \<and>
         parent s' = [0, 0, 0] \<and> rank s' = [1, 0, 0])"
proof -
  let ?s = "\<lparr>parent = [0, 0, 2], rank = [1, 0, 0], component_count = 2\<rparr>"
  have r0: "run (init 2) [] = Some (Inr (init 2, 0))" by simp
  have f0: "find_uf (init 2) 0 = Some (Inr (init 2, 0))" by code_simp
  have f1: "find_uf (init 2) 1 = Some (Inr (init 2, 1))" by code_simp
  have r1: "run (init 3) [Union 0 1] = Some (Inr (?s, 1))" by code_simp
  have g2: "find_uf ?s 2 = Some (Inr (?s, 2))" by code_simp
  have g1: "find_uf ?s 1 = Some (Inr (?s, 0))" by code_simp
  have i2: "init 2 = \<lparr>parent = [0, 1], rank = [0, 0], component_count = 2\<rparr>"
    by code_simp
  show ?thesis
    using union_by_rank[OF r0 _ _ _ _ f0 f1] union_by_rank[OF r1 _ _ _ _ g2 g1]
      union_by_rank[OF r1 _ _ _ _ g1 g2]
    unfolding i2 by simp blast
qed

text \<open>
  C1 as stated fails: on a fresh structure of size 2 both ranks are 0, the root of \<open>y = 1\<close>
  is 1, and \<open>union(0, 1)\<close> makes 0, the root of \<open>x\<close>, the new root: \<open>find(1)\<close> is 0.
\<close>

theorem union_tie_root_counterexample:
  "rank (init 2) ! 0 = rank (init 2) ! 1 \<and>
   find_uf (init 2) 0 = Some (Inr (init 2, 0)) \<and>
   find_uf (init 2) 1 = Some (Inr (init 2, 1)) \<and>
   union_uf (init 2) 0 1 =
     Some (Inr (\<lparr>parent = [0, 0], rank = [1, 0], component_count = 1\<rparr>, True)) \<and>
   find_uf \<lparr>parent = [0, 0], rank = [1, 0], component_count = 1\<rparr> 1 =
     Some (Inr (\<lparr>parent = [0, 0], rank = [1, 0], component_count = 1\<rparr>, 0)) \<and>
   find_uf \<lparr>parent = [0, 0], rank = [1, 0], component_count = 1\<rparr> 1 \<noteq>
     Some (Inr (\<lparr>parent = [0, 0], rank = [1, 0], component_count = 1\<rparr>, 1))"
  by code_simp



text \<open>
  C3: in any sequence of operations on a structure initialised with \<open>n\<close> elements, the
  component count starts at \<open>n\<close>, equals \<open>n\<close> minus the number of unions that returned
  \<open>True\<close> so far at every point of the sequence, and never increases from one point to a
  later one.
\<close>

theorem component_count_invariant:
  assumes "run (init n) (ops1 @ ops2) = Some (Inr (s2, k2))"
  shows "component_count (init n) = n \<and> component_count s2 = n - int k2 \<and>
         (\<exists>s1 k1. run (init n) ops1 = Some (Inr (s1, k1)) \<and>
                   component_count s1 = n - int k1 \<and>
                   component_count s2 \<le> component_count s1 \<and> component_count s1 \<le> n)"
proof -
  have c0: "component_count (init n) = n" by (simp add: init_def)
  from run_append[OF assms] obtain s1 k1 k' where
    r1: "run (init n) ops1 = Some (Inr (s1, k1))" and r2: "run s1 ops2 = Some (Inr (s2, k'))"
    and k: "k2 = k1 + k'" by blast
  from run_count[OF r1] run_count[OF r2] run_count[OF assms] c0 k r1 show ?thesis by auto
qed

theorem component_count_invariant_witness:
  "run (init 4) ([Union 0 1, Find 1] @ [Union 1 0, Union 2 3]) =
     Some (Inr (\<lparr>parent = [0, 0, 2, 2], rank = [1, 0, 1, 0], component_count = 2\<rparr>, 2)) \<and>
   run (init 4) [Union 0 1, Find 1] =
     Some (Inr (\<lparr>parent = [0, 0, 2, 3], rank = [1, 0, 0, 0], component_count = 3\<rparr>, 1))"
proof -
  have a: "run (init 4) ([Union 0 1, Find 1] @ [Union 1 0, Union 2 3]) =
     Some (Inr (\<lparr>parent = [0, 0, 2, 2], rank = [1, 0, 1, 0], component_count = 2\<rparr>, 2))"
    by code_simp
  have b: "run (init 4) [Union 0 1, Find 1] =
     Some (Inr (\<lparr>parent = [0, 0, 2, 3], rank = [1, 0, 0, 0], component_count = 3\<rparr>, 1))"
    by code_simp
  from component_count_invariant[OF a] a b show ?thesis by simp
qed

text \<open>
  C4 (amended): in a reachable state, for indices \<open>x\<close>, \<open>y\<close> in \<open>[0, size)\<close>, \<open>union(x, y)\<close>
  returns, and afterwards \<open>find(x)\<close> and \<open>find(y)\<close> return the same representative; a
  repeated \<open>union(x, y)\<close> returns \<open>False\<close> and leaves the state that its two \<open>find\<close> calls
  leave: the component count and the ranks are unchanged and every index keeps its
  representative (parent pointers may have been compressed).
\<close>

theorem union_then_same_component:
  assumes run: "run (init n) ops = Some (Inr (s, k))"
    and x: "0 \<le> x" "x < int (length (parent s))"
    and y: "0 \<le> y" "y < int (length (parent s))"
  shows "\<exists>s1 b. union_uf s x y = Some (Inr (s1, b)) \<and>
           (\<exists>sa sb r. find_uf s1 x = Some (Inr (sa, r)) \<and> find_uf sa y = Some (Inr (sb, r)) \<and>
              union_uf s1 x y = Some (Inr (sb, False)) \<and>
              component_count sb = component_count s1 \<and> rank sb = rank s1 \<and>
              (\<forall>z. 0 \<le> z \<and> z < int (length (parent s1)) \<longrightarrow>
                 (\<exists>sc sd rz. find_uf s1 z = Some (Inr (sc, rz)) \<and>
                              find_uf sb z = Some (Inr (sd, rz)))))"
proof -
  from reachable_inv[OF run] have inv: "uf_inv s" by simp
  from x y have vx: "ix (parent s) x" and vy: "ix (parent s) y" by (simp_all add: ix_def)
  from rep_total[OF inv vx] obtain rx where rx: "rep (parent s) x rx" ..
  from rep_total[OF inv vy] obtain ry where ry: "rep (parent s) y ry" ..
  let ?c = "if rank s ! nat rx < rank s ! nat ry then rx else ry"
  let ?t = "if rank s ! nat rx < rank s ! nat ry then ry else rx"
  have "\<exists>s1 b r. union_uf s x y = Some (Inr (s1, b)) \<and> uf_inv s1 \<and>
          rep (parent s1) x r \<and> rep (parent s1) y r"
  proof (cases "rx = ry")
    case True
    with union_uf_reps[OF inv rx ry] obtain s2 where
      pc2: "pc s s2" and u: "union_uf s x y = Some (Inr (s2, False))" by auto
    from rx ry True pc_rep[OF inv pc2] have "rep (parent s2) x rx" "rep (parent s2) y rx" by simp_all
    with u pc_inv[OF inv pc2] show ?thesis by blast
  next
    case False
    with union_uf_reps[OF inv rx ry] obtain s2 s' where
      pc2: "pc s s2" and u: "union_uf s x y = Some (Inr (s', True))"
      and at: "attach s2 ?c ?t s'" by auto
    have inv2: "uf_inv s2" using pc_inv[OF inv pc2] .
    have len2: "length (parent s2) = length (parent s)" using pc2 by (simp add: pc_def)
    have roots: "ix (parent s2) rx" "parent s2 ! nat rx = rx" "ix (parent s2) ry" "parent s2 ! nat ry = ry"
      using rep_is_root[OF rx] rep_is_root[OF ry] len2 pc_roots[OF pc2] by (simp_all add: ix_def)
    have c: "ix (parent s2) ?c" "parent s2 ! nat ?c = ?c" and t: "ix (parent s2) ?t" "parent s2 ! nat ?t = ?t"
      and ct: "?c \<noteq> ?t" using roots False by auto
    have rx2: "rep (parent s2) x rx" and ry2: "rep (parent s2) y ry"
      using rx ry pc_rep[OF inv pc2] by simp_all
    from attach_rep[OF at c t ct rx2 refl] False have "rep (parent s') x ?t" by (simp split: if_splits)
    moreover from attach_rep[OF at c t ct ry2 refl] False have "rep (parent s') y ?t" by (simp split: if_splits)
    ultimately show ?thesis using u attach_inv[OF inv2 at c t ct] by blast
  qed
  then obtain s1 b r where u: "union_uf s x y = Some (Inr (s1, b))" and inv1: "uf_inv s1"
    and r1: "rep (parent s1) x r" "rep (parent s1) y r" by blast
  from union_uf_reps[OF inv1 r1] obtain sa sb where
    fa: "find_uf s1 x = Some (Inr (sa, r))" and fb: "find_uf sa y = Some (Inr (sb, r))"
    and pcb: "pc s1 sb" and u2: "union_uf s1 x y = Some (Inr (sb, False))" by auto
  have "\<exists>sc sd rz. find_uf s1 z = Some (Inr (sc, rz)) \<and> find_uf sb z = Some (Inr (sd, rz))"
    if "0 \<le> z \<and> z < int (length (parent s1))" for z
  proof -
    from that have "ix (parent s1) z" by (simp add: ix_def)
    from rep_total[OF inv1 this] obtain rz where rz: "rep (parent s1) z rz" ..
    with pc_rep[OF inv1 pcb] have "rep (parent sb) z rz" by simp
    from find_uf_rep[OF rz refl] find_uf_rep[OF this refl] show ?thesis by blast
  qed
  with u fa fb u2 pcb show ?thesis unfolding pc_def by blast
qed

theorem union_then_same_component_witness:
  "\<exists>s1 b. union_uf \<lparr>parent = [0, 0, 2, 2], rank = [1, 0, 1, 0], component_count = 2\<rparr> 3 1 =
            Some (Inr (s1, b)) \<and>
     (\<exists>sa sb r. find_uf s1 3 = Some (Inr (sa, r)) \<and> find_uf sa 1 = Some (Inr (sb, r)) \<and>
        union_uf s1 3 1 = Some (Inr (sb, False)) \<and>
        component_count sb = component_count s1 \<and> rank sb = rank s1)"
proof -
  have r: "run (init 4) [Union 0 1, Union 2 3] =
     Some (Inr (\<lparr>parent = [0, 0, 2, 2], rank = [1, 0, 1, 0], component_count = 2\<rparr>, 2))"
    by code_simp
  show ?thesis using union_then_same_component[OF r, of 3 1] by simp blast
qed

text \<open>
  C4 as stated fails in its last part: after \<open>union(0, 1)\<close>, \<open>union(2, 3)\<close> and
  \<open>union(3, 1)\<close> on a fresh structure of size 4, the repeated \<open>union(3, 1)\<close> returns
  \<open>False\<close> but rewrites \<open>parent[1]\<close> from 0 to 2.
\<close>

theorem repeated_union_state_counterexample:
  "run (init 4) [Union 0 1, Union 2 3] =
     Some (Inr (\<lparr>parent = [0, 0, 2, 2], rank = [1, 0, 1, 0], component_count = 2\<rparr>, 2)) \<and>
   union_uf \<lparr>parent = [0, 0, 2, 2], rank = [1, 0, 1, 0], component_count = 2\<rparr> 3 1 =
     Some (Inr (\<lparr>parent = [2, 0, 2, 2], rank = [1, 0, 2, 0], component_count = 1\<rparr>, True)) \<and>
   union_uf \<lparr>parent = [2, 0, 2, 2], rank = [1, 0, 2, 0], component_count = 1\<rparr> 3 1 =
     Some (Inr (\<lparr>parent = [2, 2, 2, 2], rank = [1, 0, 2, 0], component_count = 1\<rparr>, False)) \<and>
   \<lparr>parent = [2, 2, 2, 2], rank = [1, 0, 2, 0], component_count = 1\<rparr> \<noteq>
   \<lparr>parent = [2, 0, 2, 2], rank = [1, 0, 2, 0], component_count = (1::int)\<rparr>"
  by code_simp

text \<open>
  C5 (amended): in every state, \<open>find\<close> of an integer \<open>x\<close> with \<open>x < -size\<close> or
  \<open>size \<le> x\<close> raises IndexError.
\<close>

theorem find_uf_out_of_range:
  "x < - int (length (parent s)) \<or> int (length (parent s)) \<le> x \<Longrightarrow>
     find_uf s x = Some (Inl IndexError)"
  by (rule find_uf_out)

theorem find_uf_out_of_range_witness:
  "find_uf (init 3) 3 = Some (Inl IndexError) \<and> find_uf (init 3) (- 4) = Some (Inl IndexError)"
  using find_uf_out_of_range[of 3 "init 3"] find_uf_out_of_range[of "- 4" "init 3"]
  by (simp add: init_def)

text \<open>
  C5 as stated fails: \<open>-1\<close> is outside \<open>[0, 3)\<close>, yet \<open>find(-1)\<close> on a fresh structure of
  size 3 reads \<open>parent[-1]\<close>, the last cell, and returns the representative 2.
\<close>

theorem find_uf_negative_index_counterexample:
  "\<not> (0 \<le> (- 1 :: int) \<and> (- 1 :: int) < 3) \<and>
   find_uf (init 3) (- 1) = Some (Inr (init 3, 2)) \<and>
   find_uf (init 3) (- 1) \<noteq> Some (Inl IndexError)"
  by code_simp

text \<open>
  C6 (amended): on a fresh structure of size 1 \<open>get_component_sizes\<close> returns \<open>[1]\<close>; the
  scan of \<open>solve_part2\<close> over the empty pair list does not run its loop body, reads no
  element of the list, and raises ValueError.
\<close>

theorem single_point:
  "get_component_sizes (init 1) = Some (Inr (init 1, [1])) \<and>
   (\<forall>c. solve_part2 [c] [] = Some (Inl ValueError))"
proof -
  have "get_component_sizes (init 1) = Some (Inr (init 1, [1]))" by code_simp
  then show ?thesis by (simp add: solve_part2_def)
qed

text \<open>
  C6 as stated fails: for one point and no pairs \<open>solve_part2\<close> does not complete with a
  value, it raises ValueError.
\<close>

theorem single_point_scan_counterexample:
  "solve_part2 [(0, 0, 0)] [] = Some (Inl ValueError) \<and>
   \<not> (\<exists>v. solve_part2 [(0, 0, 0)] [] = Some (Inr v))"
  by (simp add: solve_part2_def)

text \<open>
  C7: in every state reached from a fresh structure of \<open>n\<close> elements by \<open>find\<close>, \<open>union\<close>
  (and \<open>get_component_sizes\<close>) calls, \<open>get_component_sizes\<close> returns a list whose sum is \<open>n\<close>
  and which has one entry for each root of the parent list.
\<close>

theorem component_sizes_sum:
  assumes "run (init n) ops = Some (Inr (s, k))" and "0 \<le> n"
  shows "\<exists>s' sizes. get_component_sizes s = Some (Inr (s', sizes)) \<and>
           sum_list sizes = n \<and>
           length sizes = num_roots (parent s) \<and>
           num_roots (parent s') = num_roots (parent s)"
proof -
  from reachable_inv[OF assms(1)] assms(2) have inv: "uf_inv s"
    and len: "int (length (parent s)) = n" by simp_all
  from get_component_sizes_inv[OF inv] len pc_num_roots show ?thesis by fastforce
qed

theorem component_sizes_sum_witness:
  "run (init 5) [Union 0 1, Union 2 3, Find 3, Union 3 1] =
     Some (Inr (\<lparr>parent = [2, 0, 2, 2, 4], rank = [1, 0, 2, 0, 0], component_count = 2\<rparr>, 3)) \<and>
   get_component_sizes \<lparr>parent = [2, 0, 2, 2, 4], rank = [1, 0, 2, 0, 0], component_count = 2\<rparr> =
     Some (Inr (\<lparr>parent = [2, 2, 2, 2, 4], rank = [1, 0, 2, 0, 0], component_count = 2\<rparr>, [4, 1])) \<and>
   sum_list [4, 1] = (5 :: int) \<and> num_roots [2, 0, 2, 2, 4] = 2"
proof -
  have r: "run (init 5) [Union 0 1, Union 2 3, Find 3, Union 3 1] =
     Some (Inr (\<lparr>parent = [2, 0, 2, 2, 4], rank = [1, 0, 2, 0, 0], component_count = 2\<rparr>, 3))"
    by code_simp
  have g: "get_component_sizes \<lparr>parent = [2, 0, 2, 2, 4], rank = [1, 0, 2, 0, 0], component_count = 2\<rparr> =
     Some (Inr (\<lparr>parent = [2, 2, 2, 2, 4], rank = [1, 0, 2, 0, 0], component_count = 2\<rparr>, [4, 1]))"
    by code_simp
  from component_sizes_sum[OF r] r g show ?thesis by simp
qed

text \<open>
  C8: in every state that a sequence of \<open>find\<close>, \<open>union\<close> and \<open>get_component_sizes\<close>
  calls reaches from a fresh structure, the parent list is a forest, and \<open>find\<close> returns
  (a state and a representative, not an exception) for every index in \<open>[0, size)\<close>.
\<close>

theorem reachable_forest_find_terminates:
  assumes "run (init n) ops = Some (Inr (s, k))"
  shows "forest (parent s) \<and>
         (\<forall>x. 0 \<le> x \<and> x < int (length (parent s)) \<longrightarrow>
              (\<exists>s' r. find_uf s x = Some (Inr (s', r))))"
proof -
  from reachable_inv[OF assms] have inv: "uf_inv s" by simp
  have "\<exists>s' r. find_uf s x = Some (Inr (s', r))"
    if "0 \<le> x \<and> x < int (length (parent s))" for x
  proof -
    from that have "ix (parent s) x" by (simp add: ix_def)
    from rep_total[OF inv this] obtain r where "rep (parent s) x r" ..
    from find_uf_rep[OF this refl] show ?thesis by blast
  qed
  with inv_forest[OF inv] show ?thesis by blast
qed

theorem reachable_forest_find_terminates_witness:
  "run (init 4) [Union 0 1, Union 2 3, Union 3 1] =
     Some (Inr (\<lparr>parent = [2, 0, 2, 2], rank = [1, 0, 2, 0], component_count = 1\<rparr>, 3)) \<and>
   forest [2, 0, 2, 2] \<and>
   (\<exists>s' r. find_uf \<lparr>parent = [2, 0, 2, 2], rank = [1, 0, 2, 0], component_count = 1\<rparr> 1
              = Some (Inr (s', r)))"
proof -
  have a: "run (init 4) [Union 0 1, Union 2 3, Union 3 1] =
     Some (Inr (\<lparr>parent = [2, 0, 2, 2], rank = [1, 0, 2, 0], component_count = 1\<rparr>, 3))"
    by code_simp
  from reachable_forest_find_terminates[OF a] a show ?thesis by simp
qed



text \<open>
  C10: the number of connections of part 1 is computed from the number of points read:
  10 for exactly 20 points, 1000 for exactly 1000 points, and the floor of half the count
  for every other count.
\<close>

theorem part1_connections_from_size:
  "main_n_connections coordinates =
     (if length coordinates = 20 then 10
      else if length coordinates = 1000 then 1000
      else int (length coordinates) div 2) \<and>
   determine_part1_connections 20 = 10 \<and>
   determine_part1_connections 1000 = 1000 \<and>
   (\<forall>n. n \<noteq> 20 \<longrightarrow> n \<noteq> 1000 \<longrightarrow> determine_part1_connections n = n div 2)"
  by (simp add: main_n_connections_def determine_part1_connections_def)

theorem part1_connections_from_size_witness:
  "determine_part1_connections 7 = 3 \<and> determine_part1_connections (- 7) = - 4 \<and>
   main_n_connections [(0, 0, 0), (1, 0, 0), (2, 0, 0), (10, 10, 10), (11, 10, 10)] = 2"
  using part1_connections_from_size
    [of "[(0, 0, 0), (1, 0, 0), (2, 0, 0), (10, 10, 10), (11, 10, 10)]"]
  by simp

end
